theory Spec2Isabelle
  imports Main "HOL-Library.Sublist" "HOL-Library.Word" "HOL-Library.AList"
begin

section \<open>Strings, bytes and errors\<close>

text \<open>
  A Python \<open>str\<close> is a sequence of Unicode code points, so it is modelled as a list of
  natural numbers; \<open>len\<close> is \<open>length\<close>. The bytes of a file are 8-bit words. A literal of
  the source is written \<open>u ''...''\<close>.
\<close>

type_synonym pystr = "nat list"
type_synonym byte = "8 word"

definition u :: "string \<Rightarrow> pystr" where
  "u s = map of_char s"

text \<open>The bytes of a file that holds the ASCII text \<open>s\<close>.\<close>

definition ascii :: "string \<Rightarrow> byte list" where
  "ascii s = map of_char s"

text \<open>
  The exceptions the program can meet while it reads and writes files. \<open>OSError\<close> stands
  for every failure of \<open>open\<close> or \<open>read\<close> (missing file, permissions, a directory named
  \<open>x.txt\<close>, an I/O error) and carries its message.
\<close>

datatype py_error = OSError pystr | UnicodeDecodeError

section \<open>\<open>str.replace(old, new, count)\<close>\<close>

text \<open>
  \<open>s.replace(old, new, count)\<close> scans \<open>s\<close> from the left and replaces the first \<open>count\<close>
  non-overlapping occurrences of \<open>old\<close>. For an empty \<open>old\<close> Python inserts \<open>new\<close> in front
  of each character and at the end, as long as the count lasts.
\<close>

function py_replace :: "'a list \<Rightarrow> 'a list \<Rightarrow> 'a list \<Rightarrow> nat \<Rightarrow> 'a list" where
  "py_replace [] old new n = (if old = [] \<and> 0 < n then new else [])"
| "py_replace (c # cs) old new n =
     (if n = 0 then c # cs
      else if old = [] then new @ c # py_replace cs old new (n - 1)
      else if prefix old (c # cs)
        then new @ py_replace (drop (length old) (c # cs)) old new (n - 1)
      else c # py_replace cs old new n)"
  by pat_completeness auto
termination
  by (relation "measure (\<lambda>(s, old, new, n). length s)") (auto simp: neq_Nil_conv)

section \<open>Injecting the data into the template (lines 42 to 46)\<close>

definition marker :: pystr where
  "marker = u ''window.IMESSAGE_DATA = {};''"

text \<open>The f-string \<open>f'window.IMESSAGE_DATA = {data_json};'\<close>.\<close>

definition assignment :: "pystr \<Rightarrow> pystr" where
  "assignment data_json = u ''window.IMESSAGE_DATA = '' @ data_json @ u '';''"

definition inject :: "pystr \<Rightarrow> pystr \<Rightarrow> pystr" where
  "inject viewer_html data_json = py_replace viewer_html marker (assignment data_json) 1"

text \<open>
  The number of positions of \<open>xs\<close> at which \<open>pat\<close> occurs. It is the yardstick of the
  statements about occurrences, not part of the program.
\<close>

fun occurrences :: "'a list \<Rightarrow> 'a list \<Rightarrow> nat" where
  "occurrences pat [] = (if pat = [] then 1 else 0)"
| "occurrences pat (x # xs) = (if prefix pat (x # xs) then 1 else 0) + occurrences pat xs"

section \<open>The files the program sees\<close>

text \<open>
  What \<open>open(path, 'r')\<close> followed by \<open>read()\<close> meets at a path: the bytes of a regular
  file, or a failure (a missing file, missing permissions, a directory, an I/O error).
\<close>

datatype node = Regular "byte list" | Failing py_error

type_synonym entry = "pystr \<times> node"

text \<open>
  \<open>messages\<close> is the listing of \<open>script_dir / 'messages'\<close> in the order the platform
  enumerates it (a missing directory lists nothing), \<open>template\<close> is
  \<open>viewer_template.html\<close>, and \<open>out_open\<close> is the failure, if any, of opening
  \<open>viewer.html\<close> for writing.
\<close>

record world =
  messages :: "entry list"
  template :: node
  out_open :: "py_error option"

section \<open>Finding the conversation files (line 17)\<close>

text \<open>
  \<open>Path.glob('*.txt')\<close> yields the entries of the directory itself whose name matches the
  pattern, hidden ones included. The match is that of \<open>fnmatch\<close> on a POSIX system (case
  sensitive): \<open>*\<close> (code point 42) stands for any run of characters, \<open>?\<close> (63) for one,
  any other character for itself. Bracket expressions are left out, the pattern of the
  program has none.
\<close>

fun fnmatch :: "pystr \<Rightarrow> pystr \<Rightarrow> bool" where
  "fnmatch [] [] = True"
| "fnmatch (c # cs) [] = False"
| "fnmatch [] (p # ps) = (p = 42 \<and> fnmatch [] ps)"
| "fnmatch (c # cs) (p # ps) =
     (if p = 42 then fnmatch (c # cs) ps \<or> fnmatch cs (p # ps)
      else if p = 63 then fnmatch cs ps
      else p = c \<and> fnmatch cs ps)"

definition glob :: "entry list \<Rightarrow> pystr \<Rightarrow> entry list" where
  "glob dir pat = filter (\<lambda>f. fnmatch (fst f) pat) dir"

text \<open>\<open>[f for f in messages_dir.glob('*.txt') if f.name != 'orphaned.txt']\<close>\<close>

definition discover :: "entry list \<Rightarrow> entry list" where
  "discover messages_dir =
     filter (\<lambda>f. fst f \<noteq> u ''orphaned.txt'') (glob messages_dir (u ''*.txt''))"

section \<open>Reading a file as text (lines 25, 26, 34, 35)\<close>

text \<open>
  The UTF-8 codec of Python. \<open>utf8_first\<close> looks at the first byte and the bytes after
  it: either they start a well-formed sequence, which gives a code point and the number
  of bytes it takes, or the codec reports an error over the given number of bytes (an
  invalid start byte, an invalid continuation byte, or the end of the data inside a
  sequence). Overlong forms, surrogates and code points above \<open>0x10FFFF\<close> are errors.
\<close>

datatype errors = Strict | Ignore

datatype utf8_step = Scalar nat nat | Bad nat

definition cont :: "byte \<Rightarrow> bool" where
  "cont b \<longleftrightarrow> 0x80 \<le> b \<and> b < 0xC0"

definition utf8_first :: "byte \<Rightarrow> byte list \<Rightarrow> utf8_step" where
  "utf8_first b0 bs =
     (if b0 < 0x80 then Scalar (unat b0) 1
      else if b0 < 0xC2 then Bad 1
      else if b0 < 0xE0 then
        (case bs of
           [] \<Rightarrow> Bad 1
         | b1 # _ \<Rightarrow>
             if cont b1 then Scalar ((unat b0 - 0xC0) * 0x40 + (unat b1 - 0x80)) 2 else Bad 1)
      else if b0 < 0xF0 then
        (case bs of
           [] \<Rightarrow> Bad 1
         | b1 # bs1 \<Rightarrow>
             if \<not> cont b1 \<or> (b0 = 0xE0 \<and> b1 < 0xA0) \<or> (b0 = 0xED \<and> 0xA0 \<le> b1) then Bad 1
             else
               (case bs1 of
                  [] \<Rightarrow> Bad 2
                | b2 # _ \<Rightarrow>
                    if cont b2
                    then Scalar ((unat b0 - 0xE0) * 0x1000 + (unat b1 - 0x80) * 0x40
                                 + (unat b2 - 0x80)) 3
                    else Bad 2))
      else if b0 < 0xF5 then
        (case bs of
           [] \<Rightarrow> Bad 1
         | b1 # bs1 \<Rightarrow>
             if \<not> cont b1 \<or> (b0 = 0xF0 \<and> b1 < 0x90) \<or> (b0 = 0xF4 \<and> 0x90 \<le> b1) then Bad 1
             else
               (case bs1 of
                  [] \<Rightarrow> Bad 2
                | b2 # bs2 \<Rightarrow>
                    if \<not> cont b2 then Bad 2
                    else
                      (case bs2 of
                         [] \<Rightarrow> Bad 3
                       | b3 # _ \<Rightarrow>
                           if cont b3
                           then Scalar ((unat b0 - 0xF0) * 0x40000 + (unat b1 - 0x80) * 0x1000
                                        + (unat b2 - 0x80) * 0x40 + (unat b3 - 0x80)) 4
                           else Bad 3)))
      else Bad 1)"

text \<open>
  \<open>bytes.decode('utf-8', errors)\<close>: with \<open>errors='strict'\<close> (the default, used for the
  template) the first error raises \<open>UnicodeDecodeError\<close>; with \<open>errors='ignore'\<close> (used for
  the conversation files) the bytes of the error are dropped and decoding goes on behind
  them.
\<close>

fun utf8_decode :: "errors \<Rightarrow> byte list \<Rightarrow> py_error + pystr" where
  "utf8_decode errs [] = Inr []"
| "utf8_decode errs (b # bs) =
     (case utf8_first b bs of
        Scalar c n \<Rightarrow>
          (case utf8_decode errs (drop (n - 1) bs) of
             Inl e \<Rightarrow> Inl e
           | Inr s \<Rightarrow> Inr (c # s))
      | Bad n \<Rightarrow>
          (case errs of
             Strict \<Rightarrow> Inl UnicodeDecodeError
           | Ignore \<Rightarrow> utf8_decode errs (drop (n - 1) bs)))"

text \<open>
  A file opened in text mode with the default \<open>newline=None\<close> is read with universal
  newlines: \<open>\r\n\<close> and a lone \<open>\r\<close> (code point 13) both arrive as \<open>\n\<close> (10).
\<close>

fun universal_newlines :: "pystr \<Rightarrow> pystr" where
  "universal_newlines [] = []"
| "universal_newlines [c] = [if c = 13 then 10 else c]"
| "universal_newlines (c # d # ds) =
     (if c = 13 \<and> d = 10 then 10 # universal_newlines ds
      else if c = 13 then 10 # universal_newlines (d # ds)
      else c # universal_newlines (d # ds))"

text \<open>\<open>with open(path, 'r', encoding='utf-8', errors=...) as f: f.read()\<close>\<close>

fun read_text :: "errors \<Rightarrow> node \<Rightarrow> py_error + pystr" where
  "read_text errs (Failing e) = Inl e"
| "read_text errs (Regular bs) =
     (case utf8_decode errs bs of
        Inl e \<Rightarrow> Inl e
      | Inr s \<Rightarrow> Inr (universal_newlines s))"

section \<open>Loading the conversations (lines 22 to 30)\<close>

text \<open>
  The dictionary \<open>message_data\<close> keeps its keys in the order of their first insertion;
  \<open>message_data[k] = v\<close> is \<open>AList.update k v\<close>. Each \<open>print\<close> of the program is one
  entry of the output, holding the values the message interpolates.
\<close>

type_synonym dataset = "(pystr \<times> pystr) list"

datatype diag =
    Found nat
  | Loaded pystr nat
  | ErrorReading pystr py_error
  | Generated nat
  | SavedTo
  | OpenHint

text \<open>
  The loop over \<open>txt_files\<close>, with the dictionary and the output so far as its state. The
  \<open>except Exception\<close> clause turns a failed read into a message and goes on.
\<close>

fun load :: "entry list \<Rightarrow> dataset \<times> diag list \<Rightarrow> dataset \<times> diag list" where
  "load [] st = st"
| "load (txt_file # txt_files) (message_data, out) =
     load txt_files
       (case read_text Ignore (snd txt_file) of
          Inr content \<Rightarrow>
            (AList.update (fst txt_file) content message_data,
             out @ [Loaded (fst txt_file) (length content)])
        | Inl e \<Rightarrow> (message_data, out @ [ErrorReading (fst txt_file) e]))"

section \<open>Serialising the data (line 39)\<close>

text \<open>
  \<open>json.dumps(message_data, ensure_ascii=False, indent=2)\<close> for a dictionary from strings
  to strings. With \<open>ensure_ascii=False\<close> a string is written between double quotes with
  only the quote (34), the backslash (92) and the control characters below 32 escaped:
  \<open>\n\<close>, \<open>\r\<close>, \<open>\t\<close>, \<open>\b\<close>, \<open>\f\<close> by their letter, the others as \<open>\u00xx\<close>.
\<close>

definition hexdigit :: "nat \<Rightarrow> nat" where
  "hexdigit n = u ''0123456789abcdef'' ! n"

definition escape_char :: "nat \<Rightarrow> pystr" where
  "escape_char c =
     (if c = 34 then [92, 34]
      else if c = 92 then [92, 92]
      else if c = 10 then [92, 110]
      else if c = 13 then [92, 114]
      else if c = 9 then [92, 116]
      else if c = 8 then [92, 98]
      else if c = 12 then [92, 102]
      else if c < 32 then [92, 117, 48, 48, hexdigit (c div 16), hexdigit (c mod 16)]
      else [c])"

definition encode_basestring :: "pystr \<Rightarrow> pystr" where
  "encode_basestring s = 34 # concat (map escape_char s) @ [34]"

fun join :: "pystr \<Rightarrow> pystr list \<Rightarrow> pystr" where
  "join sep [] = []"
| "join sep [x] = x"
| "join sep (x # y # ys) = x @ sep @ join sep (y # ys)"

text \<open>
  An empty dictionary is \<open>{}\<close>. Otherwise each item stands on a line of its own, indented
  by two spaces, as \<open>key: value\<close>; the items are separated by a comma at the end of the
  line and the closing brace stands on the last line.
\<close>

definition json_item :: "pystr \<times> pystr \<Rightarrow> pystr" where
  "json_item kv = encode_basestring (fst kv) @ u '': '' @ encode_basestring (snd kv)"

definition json_dumps :: "dataset \<Rightarrow> pystr" where
  "json_dumps dct =
     (if dct = [] then u ''{}''
      else u ''{'' @ (10 # replicate 2 32)
           @ join (u '','' @ (10 # replicate 2 32)) (map json_item dct)
           @ [10] @ u ''}'')"

section \<open>Reading the data back\<close>

text \<open>
  \<open>json.loads\<close>, for the texts that hold one object whose values are strings: white
  space is the space, the tab, the line feed and the carriage return.
\<close>

definition skip_ws :: "pystr \<Rightarrow> pystr" where
  "skip_ws s = dropWhile (\<lambda>c. c = 32 \<or> c = 9 \<or> c = 10 \<or> c = 13) s"

text \<open>The four hexadecimal digits of a \<open>\uXXXX\<close> escape.\<close>

definition hexval :: "nat \<Rightarrow> nat option" where
  "hexval c =
     (if 48 \<le> c \<and> c \<le> 57 then Some (c - 48)
      else if 97 \<le> c \<and> c \<le> 102 then Some (c - 87)
      else if 65 \<le> c \<and> c \<le> 70 then Some (c - 55)
      else None)"

definition decode_uXXXX :: "pystr \<Rightarrow> nat option" where
  "decode_uXXXX s =
     (case map hexval (take 4 s) of
        [Some a, Some b, Some c, Some d] \<Rightarrow> Some (((a * 16 + b) * 16 + c) * 16 + d)
      | _ \<Rightarrow> None)"

text \<open>
  The character an escape stands for: the quote (34), the backslash (92) and the slash
  (47) stand for themselves, the letters \<open>b\<close>, \<open>f\<close>, \<open>n\<close>, \<open>r\<close>, \<open>t\<close> for a control
  character.
\<close>

definition backslash :: "nat \<Rightarrow> nat option" where
  "backslash e =
     (if e = 34 then Some 34
      else if e = 92 then Some 92
      else if e = 47 then Some 47
      else if e = 98 then Some 8
      else if e = 102 then Some 12
      else if e = 110 then Some 10
      else if e = 114 then Some 13
      else if e = 116 then Some 9
      else None)"

definition cons_char :: "nat \<Rightarrow> (pystr \<times> pystr) option \<Rightarrow> (pystr \<times> pystr) option" where
  "cons_char c r = (case r of None \<Rightarrow> None | Some (s, rest) \<Rightarrow> Some (c # s, rest))"

text \<open>
  \<open>scanstring\<close> reads a string behind its opening quote and returns it with the text
  behind the closing quote. A control character inside a string is an error (the decoder
  is strict), and so is an unknown escape. A high surrogate escape followed by a low one
  gives one code point.
\<close>

fun scanstring :: "pystr \<Rightarrow> (pystr \<times> pystr) option" where
  "scanstring [] = None"
| "scanstring (c # cs) =
     (if c = 34 then Some ([], cs)
      else if c = 92 then
        (case cs of
           [] \<Rightarrow> None
         | e # es \<Rightarrow>
             if e = 117 then
               (case decode_uXXXX es of
                  None \<Rightarrow> None
                | Some uni \<Rightarrow>
                    if 0xD800 \<le> uni \<and> uni \<le> 0xDBFF \<and> take 2 (drop 4 es) = [92, 117] then
                      (case decode_uXXXX (drop 6 es) of
                         None \<Rightarrow> None
                       | Some uni2 \<Rightarrow>
                           if 0xDC00 \<le> uni2 \<and> uni2 \<le> 0xDFFF
                           then cons_char (0x10000 + ((uni - 0xD800) * 0x400 + (uni2 - 0xDC00)))
                                  (scanstring (drop 10 es))
                           else cons_char uni (scanstring (drop 4 es)))
                    else cons_char uni (scanstring (drop 4 es)))
             else
               (case backslash e of
                  None \<Rightarrow> None
                | Some ch \<Rightarrow> cons_char ch (scanstring es)))
      else if c < 32 then None
      else cons_char c (scanstring cs))"

text \<open>Skips white space and takes the character \<open>c\<close>.\<close>

definition expect :: "nat \<Rightarrow> pystr \<Rightarrow> pystr option" where
  "expect c s = (case skip_ws s of [] \<Rightarrow> None | d # rest \<Rightarrow> if d = c then Some rest else None)"

text \<open>
  The items of an object, behind the quote that opens the first key: a key, a colon, a
  value, then a closing brace (125) or a comma (44) and the next item. A value that is
  not a string is outside this model and gives \<open>None\<close>.
\<close>

function members :: "pystr \<Rightarrow> (pystr \<times> pystr) list \<Rightarrow> ((pystr \<times> pystr) list \<times> pystr) option" where
  "members s pairs =
     (case scanstring s of
        None \<Rightarrow> None
      | Some (key, s1) \<Rightarrow>
          (case expect 58 s1 of
             None \<Rightarrow> None
           | Some s2 \<Rightarrow>
               (case expect 34 s2 of
                  None \<Rightarrow> None
                | Some s3 \<Rightarrow>
                    (case scanstring s3 of
                       None \<Rightarrow> None
                     | Some (val, s4) \<Rightarrow>
                         (case skip_ws s4 of
                            [] \<Rightarrow> None
                          | d # s5 \<Rightarrow>
                              if d = 125 then Some (pairs @ [(key, val)], s5)
                              else if d = 44 then
                                (case expect 34 s5 of
                                   None \<Rightarrow> None
                                 | Some s6 \<Rightarrow> members s6 (pairs @ [(key, val)]))
                              else None)))))"
  by pat_completeness auto
termination
proof (relation "measure (\<lambda>(s, pairs). length s)")
  show "wf (measure (\<lambda>(s, pairs). length s))" by simp
next
  have ws: "length (skip_ws s) \<le> length s" for s
    by (simp add: skip_ws_def length_dropWhile_le)
  have ex: "length r < length s" if "expect c s = Some r" for c s r
  proof (cases "skip_ws s")
    case Nil
    then show ?thesis using that by (simp add: expect_def)
  next
    case (Cons d rest)
    then have "r = rest" using that by (simp add: expect_def split: if_splits)
    then show ?thesis using ws [of s] Cons by simp
  qed
  have sc: "scanstring s = Some (x, r) \<Longrightarrow> length r < length s" for s x r
  proof (induction s arbitrary: x r rule: scanstring.induct)
    case 1
    then show ?case by simp
  next
    case (2 c cs)
    show ?case using "2.prems" "2.IH"
      by (auto simp: cons_char_def split: if_splits list.splits option.splits prod.splits)
        fastforce+
  qed
  fix s :: pystr and pairs :: "(pystr \<times> pystr) list" and x2 key s1 s2 s3 x2a val s4 d s5 s6
  assume "scanstring s = Some x2" "(key, s1) = x2" "expect 58 s1 = Some s2"
    "expect 34 s2 = Some s3" "scanstring s3 = Some x2a" "(val, s4) = x2a"
    "skip_ws s4 = d # s5" "d \<noteq> 125" "d = 44" "expect 34 s5 = Some s6"
  then have "length s1 < length s" "length s2 < length s1" "length s3 < length s2"
    "length s4 < length s3" "length s6 < length s5"
    using sc ex by metis+
  moreover have "length s5 < length s4" using ws [of s4] \<open>skip_ws s4 = d # s5\<close> by simp
  ultimately show "((s6, pairs @ [(key, val)]), s, pairs) \<in> measure (\<lambda>(s, pairs). length s)"
    by simp
qed

text \<open>\<open>dict(pairs)\<close>: a key that comes twice keeps its last value.\<close>

definition dict :: "(pystr \<times> pystr) list \<Rightarrow> dataset" where
  "dict pairs = fold (\<lambda>kv. AList.update (fst kv) (snd kv)) pairs []"

text \<open>
  The whole text: an object, with nothing but white space behind it. \<open>None\<close> stands for
  \<open>JSONDecodeError\<close> and for a text that is not such an object.
\<close>

definition json_loads :: "pystr \<Rightarrow> dataset option" where
  "json_loads s =
     (case expect 123 s of
        None \<Rightarrow> None
      | Some s1 \<Rightarrow>
          (case skip_ws s1 of
             [] \<Rightarrow> None
           | d # s2 \<Rightarrow>
               if d = 125 then (if skip_ws s2 = [] then Some [] else None)
               else if d = 34 then
                 (case members s2 [] of
                    None \<Rightarrow> None
                  | Some (pairs, s3) \<Rightarrow> if skip_ws s3 = [] then Some (dict pairs) else None)
               else None))"

section \<open>The whole run (lines 11 to 55)\<close>

text \<open>
  What a run leaves behind: the messages printed, the text written to \<open>viewer.html\<close>
  (\<open>None\<close> when the file was not written) and the exception that ended the run, if any.
\<close>

record result =
  stdout :: "diag list"
  written :: "pystr option"
  raised :: "py_error option"

definition main :: "world \<Rightarrow> result" where
  "main w =
     (let txt_files = discover (messages w);
          (message_data, out) = load txt_files ([], [Found (length txt_files)])
      in case read_text Strict (template w) of
           Inl e \<Rightarrow> \<lparr>stdout = out, written = None, raised = Some e\<rparr>
         | Inr viewer_html \<Rightarrow>
             (let data_json = json_dumps message_data;
                  viewer_html' = inject viewer_html data_json
              in case out_open w of
                   Some e \<Rightarrow> \<lparr>stdout = out, written = None, raised = Some e\<rparr>
                 | None \<Rightarrow>
                     \<lparr>stdout = out @ [Generated (length message_data), SavedTo, OpenHint],
                      written = Some viewer_html', raised = None\<rparr>))"

text \<open>The dictionary \<open>message_data\<close> that a run builds from the directory.\<close>

definition dataset_of :: "world \<Rightarrow> dataset" where
  "dataset_of w = fst (load (discover (messages w)) ([], []))"

section \<open>The scenario of the specification\<close>

text \<open>
  A text without its white space: two texts are equal up to formatting when they are
  equal after it.
\<close>

definition squeeze :: "pystr \<Rightarrow> pystr" where
  "squeeze s = filter (\<lambda>c. c \<noteq> 32 \<and> c \<noteq> 9 \<and> c \<noteq> 10 \<and> c \<noteq> 13) s"

text \<open>
  The directory holds \<open>alice.txt\<close> with \<open>Hello\<close> and \<open>orphaned.txt\<close> with \<open>ignored\<close>, the
  template is \<open><script>window.IMESSAGE_DATA = {};</script>\<close>. \<open>alice_expected\<close> is the
  document the specification gives, \<open>alice_written\<close> the same with the line breaks and
  the indentation of \<open>indent=2\<close>.
\<close>

definition alice_dir :: "entry list" where
  "alice_dir = [(u ''alice.txt'', Regular (ascii ''Hello'')),
                (u ''orphaned.txt'', Regular (ascii ''ignored''))]"

definition alice_world :: "entry list \<Rightarrow> world" where
  "alice_world dir =
     \<lparr>messages = dir,
      template = Regular (ascii ''<script>window.IMESSAGE_DATA = {};</script>''),
      out_open = None\<rparr>"

definition alice_expected :: pystr where
  "alice_expected =
     u ''<script>window.IMESSAGE_DATA = {'' @ [34] @ u ''alice.txt'' @ [34] @ u '': ''
       @ [34] @ u ''Hello'' @ [34] @ u ''};</script>''"

definition alice_written :: pystr where
  "alice_written =
     u ''<script>window.IMESSAGE_DATA = {'' @ [10] @ u ''  '' @ [34] @ u ''alice.txt'' @ [34] @ u '': ''
       @ [34] @ u ''Hello'' @ [34] @ [10] @ u ''};</script>''"

section \<open>Properties of the replacement\<close>

lemma py_replace_zero [simp]: "py_replace s old new 0 = s"
  by (cases s) auto

lemma occurrences_zero_iff: "occurrences pat xs = 0 \<longleftrightarrow> \<not> sublist pat xs"
  by (induction xs) (auto simp: sublist_Cons_right)

lemma py_replace_absent:
  "old \<noteq> [] \<Longrightarrow> \<not> sublist old s \<Longrightarrow> py_replace s old new n = s"
  by (induction s) (auto simp: sublist_Cons_right)

lemma prefix_append_butlast:
  assumes "pat \<noteq> []" "prefix pat (ys @ pat @ zs)" "ys \<noteq> []"
  shows "prefix pat (ys @ butlast pat)"
proof -
  have "length pat \<le> length (ys @ butlast pat)" using assms by (cases ys) auto
  moreover have "prefix (ys @ butlast pat) (ys @ pat @ zs)"
    by (metis append_butlast_last_id assms(1) prefix_def append.assoc)
  ultimately show ?thesis using assms(2)
    by (meson prefix_length_prefix)
qed

lemma py_replace_first:
  "old \<noteq> [] \<Longrightarrow> \<not> sublist old (pre @ butlast old) \<Longrightarrow>
   py_replace (pre @ old @ suf) old new (Suc n) = pre @ new @ py_replace suf old new n"
proof (induction pre)
  case Nil
  then show ?case by (cases old) auto
next
  case (Cons p ps)
  have "\<not> prefix old ((p # ps) @ old @ suf)"
    using prefix_append_butlast [of old "p # ps" suf] Cons.prems by auto
  moreover have "\<not> sublist old (ps @ butlast old)"
    using Cons.prems(2) by (auto simp: sublist_Cons_right)
  ultimately show ?case using Cons by simp
qed

lemma first_split:
  "sublist pat xs \<Longrightarrow> pat \<noteq> [] \<Longrightarrow>
   \<exists>pre suf. xs = pre @ pat @ suf \<and> \<not> sublist pat (pre @ butlast pat)"
proof (induction xs)
  case Nil
  then show ?case by simp
next
  case (Cons x xs)
  show ?case
  proof (cases "prefix pat (x # xs)")
    case True
    then obtain suf where "x # xs = [] @ pat @ suf" by (auto simp: prefix_def)
    moreover have "\<not> sublist pat ([] @ butlast pat)"
      using Cons.prems(2) sublist_length_le [of pat "butlast pat"] by (cases pat) auto
    ultimately show ?thesis by blast
  next
    case False
    with Cons.prems have "sublist pat xs" by (simp add: sublist_Cons_right)
    with Cons obtain pre suf where ps: "xs = pre @ pat @ suf" "\<not> sublist pat (pre @ butlast pat)"
      by blast
    have "prefix (x # pre @ butlast pat) (x # xs)"
      unfolding ps(1) by (metis Cons.prems(2) Cons_prefix_Cons append_butlast_last_id append.assoc prefix_def same_prefix_prefix)
    with False have "\<not> prefix pat (x # pre @ butlast pat)"
      using prefix_order.trans by blast
    with ps(2) have "\<not> sublist pat ((x # pre) @ butlast pat)"
      by (simp add: sublist_Cons_right)
    moreover have "x # xs = (x # pre) @ pat @ suf" using ps(1) by simp
    ultimately show ?thesis by blast
  qed
qed

text \<open>
  A pattern whose last character occurs nowhere else in it: an occurrence of it cannot
  reach beyond a copy of that character.
\<close>

lemma straddle_last:
  assumes lu: "last pat \<notin> set (butlast pat)" and ne: "pat \<noteq> []"
    and eq: "pat = xs1 @ xs2" and x1: "xs1 \<noteq> []" and x2: "xs2 \<noteq> []"
  shows "last xs1 \<noteq> last pat"
proof
  assume "last xs1 = last pat"
  moreover have "butlast pat = xs1 @ butlast xs2" using eq x2 by (simp add: butlast_append)
  then have "last xs1 \<in> set (butlast pat)" using x1 by simp
  ultimately show False using lu by simp
qed

lemma sublist_append_last:
  assumes lu: "last pat \<notin> set (butlast pat)" and ne: "pat \<noteq> []"
    and ys: "ys \<noteq> []" "last ys = last pat"
    and sub: "sublist pat (ys @ zs)"
  shows "sublist pat ys \<or> sublist pat zs"
proof -
  from sub consider "sublist pat ys" | "sublist pat zs"
    | xs1 xs2 where "pat = xs1 @ xs2" "suffix xs1 ys" "prefix xs2 zs"
    by (auto simp: sublist_append)
  then show ?thesis
  proof cases
    case 3
    show ?thesis
    proof (cases "xs1 = [] \<or> xs2 = []")
      case True
      then show ?thesis using 3 by auto
    next
      case False
      then have "last xs1 = last ys" using 3(2) by (auto simp: suffix_def)
      then show ?thesis using straddle_last [OF lu ne 3(1)] False ys by simp
    qed
  qed auto
qed

lemma occurrences_short: "length xs < length pat \<Longrightarrow> occurrences pat xs = 0"
  by (auto simp: occurrences_zero_iff dest: sublist_length_le)

lemma prefix_take_iff: "prefix pat xs \<longleftrightarrow> prefix pat (take (length pat) xs)"
proof
  assume "prefix pat xs"
  then obtain zs where "xs = pat @ zs" by (auto simp: prefix_def)
  then show "prefix pat (take (length pat) xs)" by simp
next
  assume "prefix pat (take (length pat) xs)"
  moreover have "prefix (take (length pat) xs) xs" by (rule take_is_prefix)
  ultimately show "prefix pat xs" by (rule prefix_order.trans)
qed

lemma occurrences_append:
  "pat \<noteq> [] \<Longrightarrow>
   occurrences pat (pre @ ys) = occurrences pat (pre @ take (length pat - 1) ys) + occurrences pat ys"
proof (induction pre)
  case Nil
  then have "length (take (length pat - 1) ys) < length pat" by (cases pat) auto
  then show ?case by (simp add: occurrences_short)
next
  case (Cons p ps)
  have "take (length pat) (p # ps @ ys) = take (length pat) (p # ps @ take (length pat - 1) ys)"
    using Cons.prems by (cases pat) simp_all
  then have "prefix pat (p # ps @ ys) \<longleftrightarrow> prefix pat (p # ps @ take (length pat - 1) ys)"
    by (metis prefix_take_iff)
  then show ?case using Cons by simp
qed

text \<open>
  A pattern is unbordered when none of its proper prefixes is also a suffix of it. Two
  occurrences of such a pattern never overlap, so its occurrences around a copy of it
  are those before the copy and those behind it.
\<close>

lemma occurrences_suffix_skip:
  assumes nb: "\<And>b. b \<noteq> [] \<Longrightarrow> prefix b pat \<Longrightarrow> suffix b pat \<Longrightarrow> b = pat"
  shows "strict_suffix ys pat \<Longrightarrow> occurrences pat (ys @ rest) = occurrences pat rest"
proof (induction ys)
  case Nil
  show ?case by simp
next
  case (Cons y ys)
  have len: "length (y # ys) < length pat"
    using Cons.prems by (rule suffix_length_less)
  have "\<not> prefix pat ((y # ys) @ rest)"
  proof
    assume "prefix pat ((y # ys) @ rest)"
    then obtain zs where "(y # ys) @ rest = pat @ zs" by (auto simp: prefix_def)
    then have "y # ys = take (length (y # ys)) pat"
      using len by (metis less_imp_le_nat append_eq_append_conv_if)
    then have "prefix (y # ys) pat" by (metis take_is_prefix)
    moreover have "suffix (y # ys) pat" using Cons.prems by (simp add: strict_suffix_def)
    ultimately have "y # ys = pat" using nb by blast
    then show False using len by simp
  qed
  moreover have "strict_suffix ys pat"
    using Cons.prems by (meson suffix_ConsD strict_suffix_def suffix_order.dual_order.strict_trans1 suffix_ConsD')
  ultimately show ?case using Cons.IH by simp
qed

lemma occurrences_self:
  assumes nb: "\<And>b. b \<noteq> [] \<Longrightarrow> prefix b pat \<Longrightarrow> suffix b pat \<Longrightarrow> b = pat"
    and ne: "pat \<noteq> []"
  shows "occurrences pat (pat @ rest) = Suc (occurrences pat rest)"
proof (cases pat)
  case Nil
  then show ?thesis using ne by simp
next
  case (Cons c cs)
  then have "strict_suffix cs pat" using suffix_ConsD' [of c cs pat] by simp
  then have "occurrences pat (cs @ rest) = occurrences pat rest"
    using occurrences_suffix_skip [of pat cs rest] nb by blast
  then show ?thesis using Cons by simp
qed

lemma occurrences_first:
  assumes nb: "\<And>b. b \<noteq> [] \<Longrightarrow> prefix b pat \<Longrightarrow> suffix b pat \<Longrightarrow> b = pat"
    and ne: "pat \<noteq> []"
  shows "occurrences pat (pre @ pat @ rest) =
         occurrences pat (pre @ butlast pat) + Suc (occurrences pat rest)"
  using occurrences_append [OF ne, of pre "pat @ rest"] occurrences_self [OF nb ne, of rest] ne
  by (simp add: butlast_conv_take)

lemma not_straddling:
  assumes nb: "\<And>b. b \<noteq> [] \<Longrightarrow> prefix b pat \<Longrightarrow> suffix b pat \<Longrightarrow> b = pat"
    and ne: "pat \<noteq> []" and pre: "\<not> sublist pat pre"
  shows "\<not> sublist pat (pre @ butlast pat)"
proof
  assume "sublist pat (pre @ butlast pat)"
  then consider "sublist pat pre" | "sublist pat (butlast pat)"
    | xs1 xs2 where "pat = xs1 @ xs2" "suffix xs1 pre" "prefix xs2 (butlast pat)"
    by (auto simp: sublist_append)
  then show False
  proof cases
    case 1
    then show False using pre by simp
  next
    case 2
    moreover have "length (butlast pat) < length pat" using ne by simp
    ultimately show False using sublist_length_le [of pat "butlast pat"] by simp
  next
    case 3
    have "length xs2 \<le> length (butlast pat)" using 3(3) by (rule prefix_length_le)
    moreover have "length (butlast pat) < length pat" using ne by simp
    ultimately have short: "length xs2 < length pat" by simp
    show False
    proof (cases "xs2 = []")
      case True
      then show False using 3 pre by auto
    next
      case False
      have "prefix (butlast pat) pat" by (metis append_butlast_last_id ne prefixI)
      then have "prefix xs2 pat" using 3(3) prefix_order.trans by blast
      moreover have "suffix xs2 pat" using 3(1) by (metis suffixI)
      ultimately have "xs2 = pat" using nb False by blast
      then show False using short by simp
    qed
  qed
qed

text \<open>
  A pattern that ends in a tag which occurs nowhere else in it, and whose first
  character is not in the tag, is unbordered.
\<close>

lemma tagged_unbordered:
  assumes tag: "suffix z pat" "\<not> sublist z (butlast pat)" "hd pat \<notin> set z"
    and b: "b \<noteq> []" "prefix b pat" "suffix b pat"
  shows "b = pat"
proof (rule ccontr)
  assume neq: "b \<noteq> pat"
  have ne: "pat \<noteq> []" using b by auto
  from suffix_same_cases [OF b(3) tag(1)] show False
  proof
    assume "suffix b z"
    then have "set b \<subseteq> set z" by (auto simp: suffix_def)
    moreover have "hd b = hd pat" using b(1,2) by (auto simp: prefix_def)
    ultimately show False using tag(3) b(1) by (metis hd_in_set subsetD)
  next
    assume "suffix z b"
    then have "sublist z b" by (rule suffix_imp_sublist)
    moreover have "prefix b (butlast pat)"
      using b(2) neq ne by (metis prefix_snoc append_butlast_last_id)
    ultimately have "sublist z (butlast pat)"
      by (meson prefix_imp_sublist sublist_order.order_trans)
    then show False using tag(2) by simp
  qed
qed

section \<open>Properties of the marker\<close>

lemma replicate_two: "replicate 2 x = [x, x]"
  by (simp add: numeral_2_eq_2)

lemma marker_eval:
  "marker = [119, 105, 110, 100, 111, 119, 46, 73, 77, 69, 83, 83, 65, 71, 69, 95, 68,
    65, 84, 65, 32, 61, 32, 123, 125, 59]"
  by (simp add: marker_def u_def)

lemma marker_ne: "marker \<noteq> []"
  by (simp add: marker_eval)

lemma marker_last_unique: "last marker \<notin> set (butlast marker)"
  by (simp add: marker_eval)

lemma length_marker: "length marker = 26"
  by (simp add: marker_eval)

lemma assignment_eval:
  "assignment s = [119, 105, 110, 100, 111, 119, 46, 73, 77, 69, 83, 83, 65, 71, 69, 95, 68,
    65, 84, 65, 32, 61, 32] @ s @ [59]"
  by (simp add: assignment_def u_def)

lemma marker_shift:
  assumes "0 < k" "k < 26" "prefix (drop k marker) (119 # 105 # zs)"
  shows False
proof -
  have "k \<in> {1,2,3,4,5,6,7,8,9,10,11,12,13,14,15,16,17,18,19,20,21,22,23,24,25}"
    using assms(1,2) by simp arith
  then show False using assms(3) by (auto simp: marker_eval)
qed

lemma marker_unbordered:
  "b \<noteq> [] \<Longrightarrow> prefix b marker \<Longrightarrow> suffix b marker \<Longrightarrow> b = marker"
  by (rule tagged_unbordered [of "[59]" marker])
    (simp_all add: marker_eval suffix_def sublist_Cons_right)

lemma assignment_ne: "assignment s \<noteq> []"
  by (simp add: assignment_eval)

lemma last_assignment: "last (assignment s) = last marker"
  by (simp add: assignment_eval marker_eval)

lemma marker_not_in_injected:
  assumes pre: "\<not> sublist marker pre" and suf: "\<not> sublist marker suf"
    and asg: "\<not> sublist marker (assignment s)"
  shows "\<not> sublist marker (pre @ assignment s @ suf)"
proof
  assume "sublist marker (pre @ assignment s @ suf)"
  then have "sublist marker ((pre @ assignment s) @ suf)" by simp
  moreover have "pre @ assignment s \<noteq> []" "last (pre @ assignment s) = last marker"
    by (simp_all add: assignment_ne last_assignment)
  ultimately have "sublist marker (pre @ assignment s) \<or> sublist marker suf"
    using sublist_append_last [OF marker_last_unique marker_ne] by blast
  with suf have "sublist marker (pre @ assignment s)" by simp
  then obtain xs1 xs2 where x: "marker = xs1 @ xs2" "suffix xs1 pre" "prefix xs2 (assignment s)"
    using pre asg by (auto simp: sublist_append)
  have "xs1 \<noteq> []" using x asg by auto
  moreover have "xs2 \<noteq> []" using x pre by auto
  moreover have "length xs1 + length xs2 = 26"
    using arg_cong [OF x(1), of length] by (simp add: length_marker)
  ultimately have k: "0 < length xs1" "length xs1 < 26"
    by (cases xs2; simp)+
  have "xs2 = drop (length xs1) marker" using x(1) by (metis append_eq_conv_conj)
  then have "prefix (drop (length xs1) marker) (119 # 105 # (drop 2 (assignment s)))"
    using x(3) by (simp add: assignment_eval)
  then show False using marker_shift [OF k] by blast
qed

section \<open>Properties of the serialisation\<close>

lemma below_16_cases:
  "n < 16 \<Longrightarrow> n \<in> {0, 1, 2, 3, 4, 5, 6, 7, 8, 9, 10, 11, 12, 13, 14, 15 :: nat}"
  by simp arith

lemma hexval_hexdigit: "n < 16 \<Longrightarrow> hexval (hexdigit n) = Some n"
  by (drule below_16_cases) (auto simp: hexdigit_def hexval_def u_def)

lemma hexdigit_digit: "n < 16 \<Longrightarrow> 48 \<le> hexdigit n \<and> hexdigit n < 128"
  by (drule below_16_cases) (auto simp: hexdigit_def u_def)

lemma decode_u00:
  assumes "c < 32"
  shows "decode_uXXXX (48 # 48 # hexdigit (c div 16) # hexdigit (c mod 16) # rest) = Some c"
proof -
  have "c div 16 < 16" "c mod 16 < 16" using assms by auto
  then have "hexval (hexdigit (c div 16)) = Some (c div 16)"
    "hexval (hexdigit (c mod 16)) = Some (c mod 16)"
    by (simp_all add: hexval_hexdigit)
  moreover have "hexval 48 = Some 0" by (simp add: hexval_def)
  ultimately show ?thesis by (simp add: decode_uXXXX_def)
qed

lemma scanstring_escape: "scanstring (escape_char c @ rest) = cons_char c (scanstring rest)"
proof (cases "c < 32 \<and> c \<notin> {8, 9, 10, 12, 13}")
  case True
  then have "escape_char c = [92, 117, 48, 48, hexdigit (c div 16), hexdigit (c mod 16)]"
    by (auto simp: escape_char_def)
  then show ?thesis using True decode_u00 [of c rest] by simp
next
  case False
  then show ?thesis by (auto simp: escape_char_def backslash_def)
qed

lemma scanstring_encoded:
  "scanstring (concat (map escape_char s) @ 34 # rest) = Some (s, rest)"
proof (induction s)
  case Nil
  show ?case by simp
next
  case (Cons c s)
  have "scanstring (concat (map escape_char (c # s)) @ 34 # rest)
      = cons_char c (scanstring (concat (map escape_char s) @ 34 # rest))"
    using scanstring_escape [of c "concat (map escape_char s) @ 34 # rest"] by simp
  then show ?case using Cons by (simp add: cons_char_def)
qed

lemma skip_ws_Cons:
  "skip_ws (c # s) = (if c = 32 \<or> c = 9 \<or> c = 10 \<or> c = 13 then skip_ws s else c # s)"
  by (simp add: skip_ws_def)

lemma skip_ws_Nil: "skip_ws [] = []"
  by (simp add: skip_ws_def)

lemma json_item_eq:
  "json_item kv = 34 # concat (map escape_char (fst kv))
      @ 34 # 58 # 32 # 34 # concat (map escape_char (snd kv)) @ [34]"
  by (simp add: json_item_def encode_basestring_def u_def)

lemma join_items_Cons:
  "join sep (map json_item (kv # d)) = 34 # tl (join sep (map json_item (kv # d)))"
  by (cases d) (simp_all add: json_item_eq)

lemma members_item:
  "members (concat (map escape_char k) @ 34 # 58 # 32 # 34 # concat (map escape_char v) @ 34 # tail) pairs
     = (case skip_ws tail of
          [] \<Rightarrow> None
        | d # s5 \<Rightarrow>
            if d = 125 then Some (pairs @ [(k, v)], s5)
            else if d = 44 then
              (case expect 34 s5 of
                 None \<Rightarrow> None
               | Some s6 \<Rightarrow> members s6 (pairs @ [(k, v)]))
            else None)"
  by (subst members.simps) (simp add: scanstring_encoded expect_def skip_ws_Cons)

lemma members_items:
  "members (tl (join [44, 10, 32, 32] (map json_item (kv # d))) @ 10 # 125 # rest) pairs
     = Some (pairs @ kv # d, rest)"
proof (induction d arbitrary: kv pairs)
  case Nil
  show ?case
    using members_item [of "fst kv" "snd kv" "10 # 125 # rest" pairs]
    by (simp add: json_item_eq skip_ws_Cons)
next
  case (Cons kv' d)
  have "tl (join [44, 10, 32, 32] (map json_item (kv # kv' # d))) @ 10 # 125 # rest
      = concat (map escape_char (fst kv)) @ 34 # 58 # 32 # 34 # concat (map escape_char (snd kv))
        @ 34 # (44 # 10 # 32 # 32 # 34 # tl (join [44, 10, 32, 32] (map json_item (kv' # d))) @ 10 # 125 # rest)"
    using join_items_Cons [of "[44, 10, 32, 32]" kv' d] by (simp add: json_item_eq)
  then show ?case
    using members_item [of "fst kv" "snd kv"
        "44 # 10 # 32 # 32 # 34 # tl (join [44, 10, 32, 32] (map json_item (kv' # d))) @ 10 # 125 # rest" pairs]
      Cons [of kv' "pairs @ [kv]"]
    by (simp add: skip_ws_Cons expect_def)
qed

lemma json_loads_dumps: "json_loads (json_dumps d) = Some (dict d)"
proof (cases d)
  case Nil
  then show ?thesis
    by (simp add: json_loads_def json_dumps_def expect_def skip_ws_Cons skip_ws_Nil dict_def u_def)
next
  case (Cons kv d')
  have "json_dumps d = 123 # 10 # 32 # 32 # 34
      # tl (join [44, 10, 32, 32] (map json_item (kv # d'))) @ 10 # 125 # []"
    using Cons join_items_Cons [of "[44, 10, 32, 32]" kv d']
    by (simp add: json_dumps_def replicate_two u_def)
  then show ?thesis
    using members_items [of kv d' "[]" "[]"] Cons
    by (simp add: json_loads_def expect_def skip_ws_Cons skip_ws_Nil)
qed

lemma update_append_new: "k \<notin> fst ` set al \<Longrightarrow> AList.update k v al = al @ [(k, v)]"
  by (induction al) auto

lemma fold_update_distinct:
  "distinct (map fst (acc @ d)) \<Longrightarrow>
   fold (\<lambda>kv. AList.update (fst kv) (snd kv)) d acc = acc @ d"
proof (induction d arbitrary: acc)
  case Nil
  show ?case by simp
next
  case (Cons kv d)
  have "fst kv \<notin> fst ` set acc" using Cons.prems by auto
  then have "AList.update (fst kv) (snd kv) acc = acc @ [kv]"
    by (simp add: update_append_new)
  moreover have "distinct (map fst ((acc @ [kv]) @ d))" using Cons.prems by simp
  ultimately show ?case using Cons.IH [of "acc @ [kv]"] by simp
qed

lemma dict_distinct: "distinct (map fst d) \<Longrightarrow> dict d = d"
  using fold_update_distinct [of "[]" d] by (simp add: dict_def)

lemma escape_char_filter:
  "filter (\<lambda>c. 128 \<le> c) (escape_char c) = (if 128 \<le> c then [c] else [])"
proof (cases "c < 32")
  case True
  then have "c div 16 < 16" "c mod 16 < 16" by auto
  then have "hexdigit (c div 16) < 128" "hexdigit (c mod 16) < 128"
    by (simp_all add: hexdigit_digit)
  then show ?thesis using True by (auto simp: escape_char_def)
next
  case False
  then show ?thesis by (auto simp: escape_char_def)
qed

lemma escaped_filter:
  "filter (\<lambda>c. 128 \<le> c) (concat (map escape_char s)) = filter (\<lambda>c. 128 \<le> c) s"
  by (induction s) (simp_all add: escape_char_filter)

lemma json_item_filter:
  "filter (\<lambda>c. 128 \<le> c) (json_item kv)
     = filter (\<lambda>c. 128 \<le> c) (fst kv) @ filter (\<lambda>c. 128 \<le> c) (snd kv)"
  by (simp add: json_item_eq escaped_filter)

lemma join_filter:
  "filter P sep = [] \<Longrightarrow> filter P (join sep xs) = concat (map (filter P) xs)"
  by (induction sep xs rule: join.induct) simp_all

lemma json_dumps_filter:
  "filter (\<lambda>c. 128 \<le> c) (json_dumps d)
     = concat (map (\<lambda>kv. filter (\<lambda>c. 128 \<le> c) (fst kv) @ filter (\<lambda>c. 128 \<le> c) (snd kv)) d)"
proof -
  have "filter (\<lambda>c. 128 \<le> c) (join (u '','' @ 10 # replicate 2 32) (map json_item d))
      = concat (map (filter (\<lambda>c. 128 \<le> c)) (map json_item d))"
    by (rule join_filter) (simp add: u_def)
  then show ?thesis
    by (simp add: json_dumps_def u_def json_item_filter comp_def)
qed

text \<open>
  Claim C2. For every dictionary from names to contents (its keys are distinct), parsing
  the text that \<open>json.dumps\<close> writes gives the dictionary back, keys and contents alike;
  a character that is not ASCII is written as itself, and the characters of the
  serialised text that are not ASCII are those of the names and contents, in their
  order.
\<close>

theorem json_roundtrip:
  assumes "distinct (map fst d)"
  shows "json_loads (json_dumps d) = Some d
    \<and> (\<forall>c. 128 \<le> c \<longrightarrow> escape_char c = [c])
    \<and> filter (\<lambda>c. 128 \<le> c) (json_dumps d)
        = concat (map (\<lambda>kv. filter (\<lambda>c. 128 \<le> c) (fst kv) @ filter (\<lambda>c. 128 \<le> c) (snd kv)) d)"
  using assms by (simp add: json_loads_dumps dict_distinct json_dumps_filter escape_char_def)

theorem json_roundtrip_witness:
  "distinct (map fst [(u ''alice.txt'', [72, 233, 10, 34, 128512 :: nat]), (u ''bob.txt'', [])])
   \<and> json_loads (json_dumps [(u ''alice.txt'', [72, 233, 10, 34, 128512]), (u ''bob.txt'', [])])
       = Some [(u ''alice.txt'', [72, 233, 10, 34, 128512]), (u ''bob.txt'', [])]
   \<and> escape_char 233 = [233]
   \<and> filter (\<lambda>c. 128 \<le> c)
        (json_dumps [(u ''alice.txt'', [72, 233, 10, 34, 128512]), (u ''bob.txt'', [])])
       = [233, 128512]"
proof -
  have h: "distinct (map fst [(u ''alice.txt'', [72, 233, 10, 34, 128512 :: nat]), (u ''bob.txt'', [])])"
    by (simp add: u_def)
  have "(233::nat) \<ge> 128" by simp
  then show ?thesis using h json_roundtrip [OF h] by (simp add: u_def)
qed

text \<open>
  A line feed is never written inside a string, so the line feed and closing brace at
  the end of the serialised text are the only such pair, and the assignment of a
  serialised dictionary is unbordered.
\<close>

lemma escape_char_no_nl: "10 \<notin> set (escape_char c)"
proof (cases "c < 32")
  case True
  then have "c div 16 < 16" "c mod 16 < 16" by auto
  then have "hexdigit (c div 16) \<noteq> 10" "hexdigit (c mod 16) \<noteq> 10"
    using hexdigit_digit by fastforce+
  then show ?thesis by (auto simp: escape_char_def)
next
  case False
  then show ?thesis by (auto simp: escape_char_def)
qed

lemma json_item_no_nl: "10 \<notin> set (json_item kv)"
  by (auto simp: json_item_eq escape_char_no_nl)

lemma nl_brace_skip:
  "10 \<notin> set ys \<Longrightarrow> sublist [10, 125] (ys @ zs) \<longleftrightarrow> sublist [10, 125 :: nat] zs"
  by (induction ys) (auto simp: sublist_Cons_right)

lemma join_no_nl_brace:
  "\<not> sublist [10, 125] (join [44, 10, 32, 32] (map json_item d) @ [10])"
proof (induction d rule: induct_list012)
  case 1
  show ?case by (simp add: sublist_Cons_right)
next
  case (2 kv)
  show ?case using nl_brace_skip [OF json_item_no_nl, of kv "[10]"]
    by (simp add: sublist_Cons_right)
next
  case (3 kv kv' d)
  have "sublist [10, 125] (join [44, 10, 32, 32] (map json_item (kv # kv' # d)) @ [10])
      \<longleftrightarrow> sublist [10, 125] (44 # 10 # 32 # 32 # join [44, 10, 32, 32] (map json_item (kv' # d)) @ [10])"
    using nl_brace_skip [OF json_item_no_nl, of kv] by simp
  then show ?case using 3 by (simp add: sublist_Cons_right)
qed

lemma json_dumps_shape:
  assumes "d \<noteq> []"
  shows "\<exists>B. json_dumps d = B @ [10, 125] \<and> \<not> sublist [10, 125] (B @ [10])"
proof -
  have "json_dumps d = (123 # 10 # 32 # 32 # join [44, 10, 32, 32] (map json_item d)) @ [10, 125]"
    using assms by (simp add: json_dumps_def replicate_two u_def)
  moreover have "\<not> sublist [10, 125]
      ((123 # 10 # 32 # 32 # join [44, 10, 32, 32] (map json_item d)) @ [10])"
    using join_no_nl_brace [of d] by (simp add: sublist_Cons_right)
  ultimately show ?thesis by blast
qed

lemma sublist_butlast_snoc:
  assumes "sublist (xs @ [x]) ys"
  shows "sublist xs (butlast ys)"
proof -
  obtain ps ss where ys: "ys = ps @ (xs @ [x]) @ ss" using assms by (auto simp: sublist_def)
  show ?thesis
  proof (cases "ss = []")
    case True
    then have "butlast ys = ps @ xs" using ys by (simp add: butlast_append)
    then show ?thesis by simp
  next
    case False
    then have "butlast ys = ps @ xs @ ([x] @ butlast ss)" using ys by (simp add: butlast_append)
    then show ?thesis by (metis sublist_appendI)
  qed
qed

lemma assignment_unbordered:
  assumes b: "b \<noteq> []" "prefix b (assignment (json_dumps d))" "suffix b (assignment (json_dumps d))"
  shows "b = assignment (json_dumps d)"
proof (cases "d = []")
  case True
  then have "assignment (json_dumps d) = marker"
    by (simp add: assignment_eval marker_eval json_dumps_def u_def)
  then show ?thesis using b marker_unbordered by simp
next
  case False
  then obtain B where B: "json_dumps d = B @ [10, 125]" "\<not> sublist [10, 125] (B @ [10])"
    using json_dumps_shape by blast
  let ?P = "[119, 105, 110, 100, 111, 119, 46, 73, 77, 69, 83, 83, 65, 71, 69, 95, 68,
    65, 84, 65, 32, 61, 32 :: nat]"
  have A: "assignment (json_dumps d) = (?P @ B) @ [10, 125, 59]"
    by (simp add: assignment_eval B(1))
  have "\<not> sublist [10, 125, 59] (butlast (assignment (json_dumps d)))"
  proof
    assume "sublist [10, 125, 59] (butlast (assignment (json_dumps d)))"
    then have "sublist ([10, 125] @ [59]) ((?P @ B) @ [10, 125])"
      unfolding A by (simp add: butlast_append)
    then have "sublist [10, 125] (butlast ((?P @ B) @ [10, 125]))"
      by (rule sublist_butlast_snoc)
    then have "sublist [10, 125] (?P @ (B @ [10]))" by (simp add: butlast_append)
    then have "sublist [10, 125] (B @ [10])"
      by (subst (asm) nl_brace_skip) simp_all
    then show False using B(2) by simp
  qed
  moreover have "suffix [10, 125, 59] (assignment (json_dumps d))"
    unfolding A by (rule suffixI) simp
  moreover have "hd (assignment (json_dumps d)) \<notin> set [10, 125, 59]"
    by (simp add: assignment_eval)
  ultimately show ?thesis using tagged_unbordered b by blast
qed

section \<open>Properties of the discovery\<close>

lemma fnmatch_literal:
  "42 \<notin> set ps \<Longrightarrow> 63 \<notin> set ps \<Longrightarrow> fnmatch s ps \<longleftrightarrow> s = ps"
  by (induction s ps rule: fnmatch.induct) auto

lemma fnmatch_star_literal:
  "42 \<notin> set ps \<Longrightarrow> 63 \<notin> set ps \<Longrightarrow> fnmatch s (42 # ps) \<longleftrightarrow> suffix ps s"
  by (induction s) (auto simp: fnmatch_literal suffix_Cons)

lemma fnmatch_txt: "fnmatch s (u ''*.txt'') \<longleftrightarrow> suffix (u ''.txt'') s"
  using fnmatch_star_literal [of "u ''.txt''" s] by (simp add: u_def)

text \<open>
  Claim C3. For every directory listing, \<open>discover\<close> returns no entry named
  \<open>orphaned.txt\<close> (the comparison is that of strings, so \<open>Orphaned.txt\<close> stays), it
  returns every other entry of the directory whose name matches \<open>*.txt\<close>, it returns the
  empty list when no name matches, and it returns only entries of the directory whose
  name ends in \<open>.txt\<close>.
\<close>

theorem discover_spec:
  "(\<forall>f\<in>set (discover D). fst f \<noteq> u ''orphaned.txt'')
   \<and> (\<forall>f\<in>set D. fnmatch (fst f) (u ''*.txt'') \<and> fst f \<noteq> u ''orphaned.txt''
          \<longrightarrow> f \<in> set (discover D))
   \<and> ((\<forall>f\<in>set D. \<not> fnmatch (fst f) (u ''*.txt'')) \<longrightarrow> discover D = [])
   \<and> (\<forall>f\<in>set (discover D). f \<in> set D \<and> suffix (u ''.txt'') (fst f))"
  by (auto simp: discover_def glob_def fnmatch_txt filter_empty_conv)

theorem discover_spec_witness:
  "discover [(u ''alice.txt'', Regular []), (u ''orphaned.txt'', Regular []),
             (u ''Orphaned.txt'', Regular []), (u ''notes.md'', Regular [])]
     = [(u ''alice.txt'', Regular []), (u ''Orphaned.txt'', Regular [])]
   \<and> \<not> fnmatch (u ''notes.md'') (u ''*.txt'')
   \<and> discover [(u ''notes.md'', Regular [])] = []"
proof -
  have n: "\<not> fnmatch (u ''notes.md'') (u ''*.txt'')"
    by (simp add: u_def)
  then have h: "\<forall>f\<in>set [(u ''notes.md'', Regular [])]. \<not> fnmatch (fst f) (u ''*.txt'')"
    by simp
  have "discover [(u ''notes.md'', Regular [])] = []"
    using discover_spec [of "[(u ''notes.md'', Regular [])]"] h by blast
  moreover have "discover [(u ''alice.txt'', Regular []), (u ''orphaned.txt'', Regular []),
             (u ''Orphaned.txt'', Regular []), (u ''notes.md'', Regular [])]
     = [(u ''alice.txt'', Regular []), (u ''Orphaned.txt'', Regular [])]"
    by (simp add: discover_def glob_def u_def)
  ultimately show ?thesis using n by blast
qed

section \<open>Properties of the loading and of the run\<close>


lemma load_dataset_indep: "fst (load fs (d, out)) = fst (load fs (d, out'))"
  by (induction fs arbitrary: d out out') (auto split: sum.splits)






lemma written_main:
  "written (main w) =
     (case read_text Strict (template w) of
        Inl e \<Rightarrow> None
      | Inr viewer_html \<Rightarrow>
          (case out_open w of
             Some e \<Rightarrow> None
           | None \<Rightarrow> Some (inject viewer_html (json_dumps (dataset_of w)))))"
  using load_dataset_indep [of "discover (messages w)" "[]" "[Found (length (discover (messages w)))]" "[]"]
  by (auto simp: main_def dataset_of_def Let_def split: prod.splits sum.splits option.splits)

lemma raised_main:
  "raised (main w) =
     (case read_text Strict (template w) of Inl e \<Rightarrow> Some e | Inr viewer_html \<Rightarrow> out_open w)"
  by (auto simp: main_def Let_def split: prod.splits sum.splits option.splits)




text \<open>
  Claim C7. When reading the template fails (the file cannot be opened or read, or it is
  not valid UTF-8), the exception leaves \<open>main\<close> as it is and \<open>viewer.html\<close> is not
  written.
\<close>

theorem template_failure:
  assumes "read_text Strict (template w) = Inl e"
  shows "raised (main w) = Some e \<and> written (main w) = None"
  using assms by (simp add: written_main raised_main)

theorem template_failure_witness:
  "read_text Strict (template \<lparr>messages = [], template = Failing (OSError (u ''No such file'')),
        out_open = None\<rparr>) = Inl (OSError (u ''No such file''))
   \<and> raised (main \<lparr>messages = [], template = Failing (OSError (u ''No such file'')),
        out_open = None\<rparr>) = Some (OSError (u ''No such file''))
   \<and> written (main \<lparr>messages = [], template = Failing (OSError (u ''No such file'')),
        out_open = None\<rparr>) = None"
proof -
  have h: "read_text Strict (template \<lparr>messages = [],
        template = Failing (OSError (u ''No such file'')), out_open = None\<rparr>)
      = Inl (OSError (u ''No such file''))"
    by simp
  show ?thesis using h template_failure [OF h] by blast
qed

text \<open>
  The codec on the text \<open>H\<close>, \<open>e\<close> acute, the euro sign and an emoticon, each behind an
  ill-formed sequence: a lone continuation byte, an overlong form, a sequence cut short,
  an encoded surrogate.
\<close>

lemma utf8_decode_examples:
  "utf8_decode Ignore [0x80, 0x48, 0xC0, 0x80, 0xC3, 0xA9, 0xE2, 0x82, 0xE2, 0x82, 0xAC,
      0xED, 0xA0, 0x80, 0xF0, 0x9F, 0x98, 0x80, 0xF0, 0x9F] = Inr [72, 233, 8364, 128512]"
  "utf8_decode Strict [0x48, 0xC3, 0xA9, 0xE2, 0x82, 0xAC, 0xF0, 0x9F, 0x98, 0x80]
     = Inr [72, 233, 8364, 128512]"
  "utf8_decode Strict [0x48, 0xC3] = Inl UnicodeDecodeError"
  by (simp_all add: utf8_first_def cont_def)


text \<open>On bytes that are well-formed UTF-8 nothing is dropped.\<close>

lemma utf8_ignore_valid:
  "utf8_decode Strict bs = Inr s \<Longrightarrow> utf8_decode Ignore bs = Inr s"
proof (induction bs arbitrary: s rule: length_induct)
  case (1 bs)
  show ?case
  proof (cases bs)
    case Nil
    then show ?thesis using "1.prems" by simp
  next
    case (Cons b rest)
    have IH: "utf8_decode Ignore (drop k rest) = Inr t"
      if "utf8_decode Strict (drop k rest) = Inr t" for k t
      using 1(1) Cons that by simp
    show ?thesis
      using "1.prems" Cons IH
      by (auto split: utf8_step.splits sum.splits)
  qed
qed








section \<open>Properties of the injection\<close>

text \<open>
  Claim C5. A template in which the marker \<open>window.IMESSAGE_DATA = {};\<close> does not occur
  comes back from \<open>inject\<close> unchanged, whatever the serialised data is, and no error is
  raised: a run whose template is readable and whose output can be opened writes the
  template as it is and ends without exception.
\<close>

theorem inject_absent:
  assumes "occurrences marker t = 0"
  shows "inject t s = t
    \<and> (read_text Strict (template w) = Inr t \<and> out_open w = None
         \<longrightarrow> written (main w) = Some t \<and> raised (main w) = None)"
proof -
  have "inject t s' = t" for s'
    using assms by (simp add: inject_def occurrences_zero_iff py_replace_absent marker_ne)
  then show ?thesis by (simp add: written_main raised_main)
qed

theorem inject_absent_witness:
  "occurrences marker (u ''<html></html>'') = 0
   \<and> inject (u ''<html></html>'') (json_dumps [(u ''alice.txt'', u ''Hello'')]) = u ''<html></html>''
   \<and> read_text Strict (template \<lparr>messages = [], template = Regular (ascii ''<html></html>''),
         out_open = None\<rparr>) = Inr (u ''<html></html>'')
   \<and> out_open \<lparr>messages = [], template = Regular (ascii ''<html></html>''),
         out_open = None\<rparr> = None
   \<and> written (main \<lparr>messages = [], template = Regular (ascii ''<html></html>''),
         out_open = None\<rparr>) = Some (u ''<html></html>'')
   \<and> raised (main \<lparr>messages = [], template = Regular (ascii ''<html></html>''),
         out_open = None\<rparr>) = None"
proof -
  have h: "occurrences marker (u ''<html></html>'') = 0"
    by (simp add: marker_def u_def)
  have r: "read_text Strict (template \<lparr>messages = [],
         template = Regular (ascii ''<html></html>''), out_open = None\<rparr>)
       = Inr (u ''<html></html>'')"
    by (simp add: utf8_first_def cont_def ascii_def u_def)
  show ?thesis
    using h r inject_absent [OF h, of "json_dumps [(u ''alice.txt'', u ''Hello'')]"
        "\<lparr>messages = [], template = Regular (ascii ''<html></html>''), out_open = None\<rparr>"]
    by simp
qed



text \<open>
  Claim C4. In a template that holds the marker exactly twice, \<open>inject\<close> replaces the
  first occurrence only: the template is \<open>pre @ marker @ rest\<close> with no occurrence
  starting inside \<open>pre\<close>, the other occurrence lies in \<open>rest\<close>, and the document is
  \<open>pre @ assignment @ rest\<close>, with \<open>rest\<close> and the marker in it unchanged.
\<close>

theorem inject_twice:
  assumes "occurrences marker t = 2"
  shows "\<exists>pre rest. t = pre @ marker @ rest \<and> occurrences marker (pre @ butlast marker) = 0
           \<and> occurrences marker rest = 1 \<and> inject t s = pre @ assignment s @ rest"
proof -
  have "sublist marker t" using assms occurrences_zero_iff [of marker t] by auto
  then obtain pre rest where t: "t = pre @ marker @ rest"
    and first: "\<not> sublist marker (pre @ butlast marker)"
    using first_split [OF _ marker_ne] by blast
  have zero: "occurrences marker (pre @ butlast marker) = 0"
    using first by (simp add: occurrences_zero_iff)
  have "occurrences marker t = occurrences marker (pre @ butlast marker) + Suc (occurrences marker rest)"
    unfolding t using occurrences_first [of marker pre rest] marker_unbordered marker_ne by blast
  then have one: "occurrences marker rest = 1" using assms zero by simp
  have "inject t s = pre @ assignment s @ rest"
    unfolding t using py_replace_first [OF marker_ne first, of rest "assignment s" 0]
    by (simp add: inject_def)
  then show ?thesis using t zero one by blast
qed

theorem inject_twice_witness:
  "occurrences marker (u ''a'' @ marker @ u ''b'' @ marker) = 2 \<and>
   (\<exists>pre rest. u ''a'' @ marker @ u ''b'' @ marker = pre @ marker @ rest
      \<and> occurrences marker (pre @ butlast marker) = 0
      \<and> occurrences marker rest = 1
      \<and> inject (u ''a'' @ marker @ u ''b'' @ marker) (u ''{}'') = pre @ assignment (u ''{}'') @ rest)"
proof -
  have h: "occurrences marker (u ''a'' @ marker @ u ''b'' @ marker) = 2"
    by (simp add: marker_def u_def)
  show ?thesis using h inject_twice [OF h] by simp
qed

text \<open>
  Claim C1, amended. For a template that holds the marker exactly once and a dataset
  whose assignment \<open>window.IMESSAGE_DATA = <serialized>;\<close> neither contains the marker
  nor occurs in the template, the document has no occurrence of the marker and exactly
  one occurrence of the assignment: it is the template with the marker replaced by the
  assignment.
\<close>

theorem inject_once:
  assumes "occurrences marker t = 1"
    and "occurrences marker (assignment (json_dumps d)) = 0"
    and "occurrences (assignment (json_dumps d)) t = 0"
  shows "occurrences marker (inject t (json_dumps d)) = 0
    \<and> occurrences (assignment (json_dumps d)) (inject t (json_dumps d)) = 1
    \<and> (\<exists>pre suf. t = pre @ marker @ suf
          \<and> inject t (json_dumps d) = pre @ assignment (json_dumps d) @ suf)"
proof -
  let ?A = "assignment (json_dumps d)"
  have "sublist marker t" using assms(1) occurrences_zero_iff [of marker t] by auto
  then obtain pre suf where t: "t = pre @ marker @ suf"
    and first: "\<not> sublist marker (pre @ butlast marker)"
    using first_split [OF _ marker_ne] by blast
  have "occurrences marker t = occurrences marker (pre @ butlast marker) + Suc (occurrences marker suf)"
    unfolding t using occurrences_first [of marker pre suf] marker_unbordered marker_ne by blast
  then have "occurrences marker suf = 0" using assms(1) by simp
  then have suf: "\<not> sublist marker suf" by (simp add: occurrences_zero_iff)
  have pre: "\<not> sublist marker pre"
    using first by (auto simp: sublist_append)
  have out: "inject t (json_dumps d) = pre @ ?A @ suf"
    unfolding t using py_replace_first [OF marker_ne first, of suf ?A 0]
    by (simp add: inject_def)
  have "\<not> sublist marker (pre @ ?A @ suf)"
    using marker_not_in_injected [OF pre suf] assms(2) by (simp add: occurrences_zero_iff)
  then have zero: "occurrences marker (inject t (json_dumps d)) = 0"
    by (simp add: out occurrences_zero_iff)
  have notin: "\<not> sublist ?A t" using assms(3) by (simp add: occurrences_zero_iff)
  have "\<not> sublist ?A pre" "\<not> sublist ?A suf"
    using notin unfolding t by (auto simp: sublist_append)
  then have "occurrences ?A (pre @ butlast ?A) = 0" "occurrences ?A suf = 0"
    using not_straddling [of ?A pre] assignment_unbordered [of _ d] assignment_ne [of "json_dumps d"]
    by (auto simp: occurrences_zero_iff)
  moreover have "occurrences ?A (pre @ ?A @ suf)
      = occurrences ?A (pre @ butlast ?A) + Suc (occurrences ?A suf)"
    using occurrences_first [of ?A pre suf] assignment_unbordered [of _ d]
      assignment_ne [of "json_dumps d"] by blast
  ultimately have "occurrences ?A (inject t (json_dumps d)) = 1" by (simp add: out)
  then show ?thesis using zero t out by blast
qed

theorem inject_once_witness:
  "occurrences marker (u ''<script>window.IMESSAGE_DATA = {};</script>'') = 1
   \<and> occurrences marker (assignment (json_dumps [(u ''alice.txt'', u ''Hello'')])) = 0
   \<and> occurrences (assignment (json_dumps [(u ''alice.txt'', u ''Hello'')]))
        (u ''<script>window.IMESSAGE_DATA = {};</script>'') = 0
   \<and> occurrences marker
        (inject (u ''<script>window.IMESSAGE_DATA = {};</script>'')
           (json_dumps [(u ''alice.txt'', u ''Hello'')])) = 0
   \<and> occurrences (assignment (json_dumps [(u ''alice.txt'', u ''Hello'')]))
        (inject (u ''<script>window.IMESSAGE_DATA = {};</script>'')
           (json_dumps [(u ''alice.txt'', u ''Hello'')])) = 1"
proof -
  have h1: "occurrences marker (u ''<script>window.IMESSAGE_DATA = {};</script>'') = 1"
    by (simp add: marker_def u_def)
  have h2: "occurrences marker (assignment (json_dumps [(u ''alice.txt'', u ''Hello'')])) = 0"
    by (simp add: marker_def u_def assignment_def json_dumps_def json_item_def
        encode_basestring_def escape_char_def replicate_two)
  have h3: "occurrences (assignment (json_dumps [(u ''alice.txt'', u ''Hello'')]))
        (u ''<script>window.IMESSAGE_DATA = {};</script>'') = 0"
    by (simp add: u_def assignment_def json_dumps_def json_item_def
        encode_basestring_def escape_char_def replicate_two)
  show ?thesis using h1 h2 h3 inject_once [OF h1 h2 h3] by simp
qed

text \<open>
  Claim C1 as stated fails in two ways. The empty dataset is serialised as \<open>{}\<close>, so the
  assignment is the marker itself: the document is the template, marker included. And a
  template made of the marker and, behind it, the assignment of the dataset gives a
  document with that assignment twice.
\<close>

theorem inject_once_counterexample:
  "occurrences marker (u ''<script>window.IMESSAGE_DATA = {};</script>'') = 1
   \<and> inject (u ''<script>window.IMESSAGE_DATA = {};</script>'') (json_dumps [])
       = u ''<script>window.IMESSAGE_DATA = {};</script>''
   \<and> occurrences marker
        (inject (u ''<script>window.IMESSAGE_DATA = {};</script>'') (json_dumps [])) \<noteq> 0
   \<and> occurrences marker (marker @ assignment (json_dumps [(u ''a'', u ''b'')])) = 1
   \<and> inject (marker @ assignment (json_dumps [(u ''a'', u ''b'')])) (json_dumps [(u ''a'', u ''b'')])
       = assignment (json_dumps [(u ''a'', u ''b'')]) @ assignment (json_dumps [(u ''a'', u ''b'')])
   \<and> occurrences (assignment (json_dumps [(u ''a'', u ''b'')]))
        (inject (marker @ assignment (json_dumps [(u ''a'', u ''b'')]))
           (json_dumps [(u ''a'', u ''b'')])) \<noteq> 1"
  by (simp add: inject_def marker_def assignment_def json_dumps_def json_item_def
      encode_basestring_def escape_char_def replicate_two u_def)

section \<open>The scenario\<close>

lemma dataset_alice: "dataset_of (alice_world alice_dir) = [(u ''alice.txt'', u ''Hello'')]"
  by (simp add: dataset_of_def alice_world_def alice_dir_def discover_def glob_def
      utf8_first_def cont_def ascii_def u_def)

lemma dataset_alice_rev: "dataset_of (alice_world (rev alice_dir)) = [(u ''alice.txt'', u ''Hello'')]"
  by (simp add: dataset_of_def alice_world_def alice_dir_def discover_def glob_def
      utf8_first_def cont_def ascii_def u_def)

lemma template_alice:
  "read_text Strict (template (alice_world dir)) = Inr (u ''<script>window.IMESSAGE_DATA = {};</script>'')"
  by (simp add: alice_world_def utf8_first_def cont_def ascii_def u_def)

lemma dumps_alice:
  "json_dumps [(u ''alice.txt'', u ''Hello'')]
     = u ''{'' @ [10] @ u ''  '' @ [34] @ u ''alice.txt'' @ [34] @ u '': ''
       @ [34] @ u ''Hello'' @ [34] @ [10] @ u ''}''"
  by (simp add: json_dumps_def json_item_def encode_basestring_def escape_char_def
      replicate_two u_def)

lemma written_alice:
  assumes "dataset_of (alice_world dir) = [(u ''alice.txt'', u ''Hello'')]"
  shows "written (main (alice_world dir)) = Some alice_written"
  unfolding written_main template_alice assms dumps_alice
  by (simp add: alice_world_def alice_written_def inject_def marker_def assignment_def u_def)

text \<open>
  Claim C9. With \<open>alice.txt\<close> (\<open>Hello\<close>) and \<open>orphaned.txt\<close> (\<open>ignored\<close>) in the directory,
  in either order, and the template \<open><script>window.IMESSAGE_DATA = {};</script>\<close>, the
  run ends without exception and writes the template with the dictionary of
  \<open>alice.txt\<close> alone in place of the empty object. The document equals the one of the
  specification up to white space, and \<open>orphaned.txt\<close> is neither a key of the data nor
  a part of the document.
\<close>

theorem scenario_alice:
  "written (main (alice_world alice_dir)) = Some alice_written
   \<and> written (main (alice_world (rev alice_dir))) = Some alice_written
   \<and> raised (main (alice_world alice_dir)) = None
   \<and> alice_written = u ''<script>'' @ assignment (json_dumps [(u ''alice.txt'', u ''Hello'')]) @ u ''</script>''
   \<and> squeeze alice_written = squeeze alice_expected
   \<and> \<not> sublist (u ''orphaned.txt'') alice_written
   \<and> u ''orphaned.txt'' \<notin> fst ` set (dataset_of (alice_world alice_dir))
   \<and> json_loads (json_dumps (dataset_of (alice_world alice_dir)))
       = Some [(u ''alice.txt'', u ''Hello'')]"
proof -
  have "raised (main (alice_world alice_dir)) = None"
    unfolding raised_main template_alice by (simp add: alice_world_def)
  moreover have "alice_written = u ''<script>'' @ assignment (json_dumps [(u ''alice.txt'', u ''Hello'')]) @ u ''</script>''"
    unfolding dumps_alice by (simp add: alice_written_def assignment_def u_def)
  moreover have "squeeze alice_written = squeeze alice_expected"
    by (simp add: squeeze_def alice_written_def alice_expected_def u_def)
  moreover have "\<not> sublist (u ''orphaned.txt'') alice_written"
    by (simp add: alice_written_def u_def occurrences_zero_iff [symmetric])
  moreover have "u ''orphaned.txt'' \<notin> fst ` set (dataset_of (alice_world alice_dir))"
    unfolding dataset_alice by (simp add: u_def)
  moreover have "json_loads (json_dumps (dataset_of (alice_world alice_dir)))
       = Some [(u ''alice.txt'', u ''Hello'')]"
    unfolding dataset_alice by (simp add: json_loads_dumps dict_distinct)
  ultimately show ?thesis
    using written_alice [OF dataset_alice] written_alice [OF dataset_alice_rev] by blast
qed

end
